theory Spec2Isabelle
  imports Main "HOL-Library.Sublist"
begin

section \<open>The log records (types.ts)\<close>

text \<open>
  \<^verbatim>\<open>HttpLog\<close> is an interface of five properties. The \<^verbatim>\<open>method\<close> property is a
  union of five string literals, \<^verbatim>\<open>statusCode\<close> is a number and the others are strings.
  Two field names carry a prime because the plain names are taken in Isabelle.
  Numbers are modelled as integers (a status code is one); strings are lists of
  characters.
\<close>

datatype Method = GET | POST | PUT | DELETE | PATCH

record HttpLog =
  method' :: Method
  path :: string
  statusCode :: int
  id' :: string
  domain :: string

text \<open>A property value as JavaScript sees it at run time: a string or a number.\<close>

datatype jsval = JString string | JNumber int

text \<open>The only exception the component can raise.\<close>

datatype error = TypeError

fun Method_name :: "Method \<Rightarrow> string" where
  "Method_name GET = ''GET''"
| "Method_name POST = ''POST''"
| "Method_name PUT = ''PUT''"
| "Method_name DELETE = ''DELETE''"
| "Method_name PATCH = ''PATCH''"

text \<open>
  \<^verbatim>\<open>Object.keys\<close> of a record: its property names, in the order of the interface.
  (The order in which the sample data writes them is not part of the sources; no
  theorem below depends on the order.)
\<close>

definition Object_keys :: "HttpLog \<Rightarrow> string list" where
  "Object_keys item = [''method'', ''path'', ''statusCode'', ''id'', ''domain'']"

text \<open>
  \<^verbatim>\<open>item[key]\<close>: the property, or \<^verbatim>\<open>undefined\<close> (\<open>None\<close>) for a name that is not
  a property of the record.
\<close>

definition getField :: "HttpLog \<Rightarrow> string \<Rightarrow> jsval option" where
  "getField item key =
     (if key = ''method'' then Some (JString (Method_name (method' item)))
      else if key = ''path'' then Some (JString (path item))
      else if key = ''statusCode'' then Some (JNumber (statusCode item))
      else if key = ''id'' then Some (JString (id' item))
      else if key = ''domain'' then Some (JString (domain item))
      else None)"

section \<open>Strings\<close>

text \<open>Decimal digits of a natural number, most significant first.\<close>

fun digits :: "nat \<Rightarrow> string" where
  "digits n =
     (if n < 10 then [''0123456789'' ! n]
      else digits (n div 10) @ [''0123456789'' ! (n mod 10)])"

text \<open>\<^verbatim>\<open>toString()\<close> of a property value: a string is itself, a number is written in
  decimal.\<close>

fun toString :: "jsval \<Rightarrow> string" where
  "toString (JString s) = s"
| "toString (JNumber n) = (if n < 0 then CHR ''-'' # digits (nat (- n)) else digits (nat n))"

text \<open>
  \<^verbatim>\<open>toLowerCase()\<close> on the ASCII letters; other characters are unchanged. The
  theorems below never look inside this function.
\<close>

definition toLowerCase_char :: "char \<Rightarrow> char" where
  "toLowerCase_char c =
     (case map_of (zip ''ABCDEFGHIJKLMNOPQRSTUVWXYZ'' ''abcdefghijklmnopqrstuvwxyz'') c of
        None \<Rightarrow> c
      | Some l \<Rightarrow> l)"

definition toLowerCase :: "string \<Rightarrow> string" where
  "toLowerCase s = map toLowerCase_char s"

text \<open>\<^verbatim>\<open>s.startsWith(t)\<close> and \<^verbatim>\<open>s.includes(t)\<close> (the second name is primed: the plain one is reserved).\<close>

fun startsWith :: "string \<Rightarrow> string \<Rightarrow> bool" where
  "startsWith s [] = True"
| "startsWith [] (c # t) = False"
| "startsWith (x # s) (c # t) = (x = c \<and> startsWith s t)"

fun includes' :: "string \<Rightarrow> string \<Rightarrow> bool" where
  "includes' [] t = (t = [])"
| "includes' (x # s) t = (startsWith (x # s) t \<or> includes' s t)"

section \<open>The tag store: a JavaScript Map from field name to value or null\<close>

text \<open>
  A \<^verbatim>\<open>Map\<close> iterates in insertion order, so the store is the list of its entries in
  that order; \<open>None\<close> is \<^verbatim>\<open>null\<close>. \<^verbatim>\<open>set\<close> overwrites an existing key in place and
  appends a new one; \<^verbatim>\<open>delete\<close> removes the key.
\<close>

type_synonym tagmap = "(string \<times> string option) list"

fun Map_set :: "tagmap \<Rightarrow> string \<Rightarrow> string option \<Rightarrow> tagmap" where
  "Map_set [] k v = [(k, v)]"
| "Map_set ((k', v') # m) k v = (if k' = k then (k, v) # m else (k', v') # Map_set m k v)"

definition Map_delete :: "tagmap \<Rightarrow> string \<Rightarrow> tagmap" where
  "Map_delete m k = filter (\<lambda>e. fst e \<noteq> k) m"

definition Map_has :: "tagmap \<Rightarrow> string \<Rightarrow> bool" where
  "Map_has m k = list_ex (\<lambda>e. fst e = k) m"

text \<open>\<^verbatim>\<open>tags.keys()\<close>: the keys in insertion order.\<close>

definition Map_keys :: "tagmap \<Rightarrow> string list" where
  "Map_keys m = map fst m"

text \<open>
  A well-formed tag store: no key twice (what a \<^verbatim>\<open>Map\<close> always is) and no empty
  key (field names are not empty).
\<close>

definition wf_tags :: "tagmap \<Rightarrow> bool" where
  "wf_tags m = (distinct (Map_keys m) \<and> [] \<notin> set (Map_keys m))"

text \<open>
  \<^verbatim>\<open>incompleteTag\<close>: the key of the first entry whose value is \<^verbatim>\<open>null\<close>, or
  \<^verbatim>\<open>undefined\<close>.
\<close>

definition incompleteTag :: "tagmap \<Rightarrow> string option" where
  "incompleteTag tags = map_option fst (find (\<lambda>e. snd e = None) tags)"

text \<open>
  JavaScript truthiness of an optional string: \<^verbatim>\<open>undefined\<close>, \<^verbatim>\<open>null\<close> and the
  empty string are falsy.
\<close>

fun truthy :: "string option \<Rightarrow> bool" where
  "truthy None = False"
| "truthy (Some s) = (s \<noteq> [])"

section \<open>The suggestion engine\<close>

text \<open>\<^verbatim>\<open>Array.from(new Set(xs))\<close>: the elements in the order they were first added.\<close>

fun Set_add :: "string list \<Rightarrow> string \<Rightarrow> string list" where
  "Set_add acc x = (if x \<in> set acc then acc else acc @ [x])"

definition Set_from :: "string list \<Rightarrow> string list" where
  "Set_from xs = foldl Set_add [] xs"

text \<open>
  The callback of \<^verbatim>\<open>filter\<close> in \<^verbatim>\<open>getSuggestions\<close> calls \<^verbatim>\<open>toString\<close> on the
  property, which throws on \<^verbatim>\<open>undefined\<close>.
\<close>

fun keepValues :: "string \<Rightarrow> jsval option list \<Rightarrow> error + jsval list" where
  "keepValues inputValue [] = Inr []"
| "keepValues inputValue (None # vs) = Inl TypeError"
| "keepValues inputValue (Some s # vs) =
     (case keepValues inputValue vs of
        Inl e \<Rightarrow> Inl e
      | Inr r \<Rightarrow>
          Inr (if includes' (toLowerCase (toString s)) (toLowerCase inputValue)
               then s # r else r))"

definition getSuggestions :: "HttpLog list \<Rightarrow> string \<Rightarrow> string \<Rightarrow> error + string list" where
  "getSuggestions data tagKey inputValue =
     (case keepValues inputValue (map (\<lambda>i. getField i tagKey) data) of
        Inl e \<Rightarrow> Inl e
      | Inr vs \<Rightarrow> Inr (Set_from (map toString vs)))"

text \<open>\<^verbatim>\<open>dataKeys\<close>: the keys of the first record. \<^verbatim>\<open>Object.keys(undefined)\<close> throws.\<close>

definition dataKeys :: "HttpLog list \<Rightarrow> error + string list" where
  "dataKeys data = (case data of [] \<Rightarrow> Inl TypeError | item # _ \<Rightarrow> Inr (Object_keys item))"

definition getMatchingKeys :: "string list \<Rightarrow> tagmap \<Rightarrow> string \<Rightarrow> string list" where
  "getMatchingKeys keys tags input = filter (\<lambda>k. startsWith k input \<and> \<not> Map_has tags k) keys"

text \<open>
  The \<^verbatim>\<open>suggestions\<close> memo, given the keys that \<^verbatim>\<open>dataKeys\<close> produced in the same
  render.
\<close>

definition suggestions :: "string list \<Rightarrow> HttpLog list \<Rightarrow> tagmap \<Rightarrow> string \<Rightarrow> error + string list" where
  "suggestions keys data tags inputValue =
     (if \<not> truthy (incompleteTag tags) then
        (case (if \<not> Map_has tags ''path'' then getSuggestions data ''path'' inputValue else Inr []) of
           Inl e \<Rightarrow> Inl e
         | Inr pathSuggestions \<Rightarrow>
             if length pathSuggestions > 0 then Inr pathSuggestions
             else Inr (getMatchingKeys keys tags inputValue))
      else getSuggestions data (the (incompleteTag tags)) inputValue)"

text \<open>One render up to the suggestion list: the keys first, then the suggestions.\<close>

definition render :: "HttpLog list \<Rightarrow> tagmap \<Rightarrow> string \<Rightarrow> error + (string list \<times> string list)" where
  "render data tags inputValue =
     (case dataKeys data of
        Inl e \<Rightarrow> Inl e
      | Inr keys \<Rightarrow>
          (case suggestions keys data tags inputValue of
             Inl e \<Rightarrow> Inl e
           | Inr sugg \<Rightarrow> Inr (keys, sugg)))"

section \<open>The filter evaluator\<close>

text \<open>The loop over the tags for one record: \<open>Inr False\<close> is the early \<^verbatim>\<open>return false\<close>.\<close>

fun tagsMatch :: "HttpLog \<Rightarrow> tagmap \<Rightarrow> error + bool" where
  "tagsMatch item [] = Inr True"
| "tagsMatch item ((key, v) # rest) =
     (if \<not> truthy v then tagsMatch item rest
      else (case getField item key of
              None \<Rightarrow> Inl TypeError
            | Some x \<Rightarrow> if toString x \<noteq> the v then Inr False else tagsMatch item rest))"

definition keepItem :: "string list \<Rightarrow> tagmap \<Rightarrow> string \<Rightarrow> HttpLog \<Rightarrow> error + bool" where
  "keepItem keys tags inputValue item =
     (case tagsMatch item tags of
        Inl e \<Rightarrow> Inl e
      | Inr ok \<Rightarrow>
          if \<not> ok then Inr False
          else (let isSelectingTag = list_ex (\<lambda>key. startsWith key inputValue \<and> \<not> Map_has tags key) keys
                in Inr (if length inputValue > 0 \<and> \<not> isSelectingTag
                        then includes' (path item) inputValue else True)))"

text \<open>\<^verbatim>\<open>data.filter(callback)\<close> with a callback that can throw.\<close>

fun filterE :: "('a \<Rightarrow> error + bool) \<Rightarrow> 'a list \<Rightarrow> error + 'a list" where
  "filterE f [] = Inr []"
| "filterE f (x # xs) =
     (case f x of
        Inl e \<Rightarrow> Inl e
      | Inr b \<Rightarrow> (case filterE f xs of Inl e \<Rightarrow> Inl e | Inr r \<Rightarrow> Inr (if b then x # r else r)))"

text \<open>The list handed to \<^verbatim>\<open>onChange\<close>.\<close>

definition filterResults :: "string list \<Rightarrow> HttpLog list \<Rightarrow> tagmap \<Rightarrow> string \<Rightarrow> error + HttpLog list" where
  "filterResults keys data tags inputValue = filterE (keepItem keys tags inputValue) data"

section \<open>The highlighted suggestion\<close>

text \<open>The effect that runs when the suggestions or the index change.\<close>

definition clampHighlight :: "string list \<Rightarrow> int \<Rightarrow> int" where
  "clampHighlight sugg highlightedSuggestion =
     (if highlightedSuggestion \<ge> int (length sugg) then int (length sugg) - 1
      else highlightedSuggestion)"

datatype direction = Up | Down

definition changeHighlightedSuggestion :: "string list \<Rightarrow> direction \<Rightarrow> int \<Rightarrow> int" where
  "changeHighlightedSuggestion sugg dir prev =
     (if dir = Up then (if prev > 0 then prev - 1 else prev)
      else (if prev < int (length sugg) - 1 then prev + 1 else prev))"

section \<open>Commit and removal\<close>

text \<open>\<^verbatim>\<open>xs[i]\<close> for a number \<open>i\<close>: \<^verbatim>\<open>undefined\<close> outside the array.\<close>

definition at_index :: "string list \<Rightarrow> int \<Rightarrow> string option" where
  "at_index xs i = (if 0 \<le> i \<and> i < int (length xs) then Some (xs ! nat i) else None)"

record state =
  inputValue :: string
  tags :: tagmap
  showSuggestions :: bool
  highlightedSuggestion :: int

definition init :: state where
  "init = \<lparr>inputValue = [], tags = [], showSuggestions = False, highlightedSuggestion = 0\<rparr>"

text \<open>
  \<^verbatim>\<open>selectedSuggestion\<close>: the argument when it is truthy, else the highlighted
  suggestion.
\<close>

definition selectedSuggestion :: "string list \<Rightarrow> int \<Rightarrow> string option \<Rightarrow> string option" where
  "selectedSuggestion sugg h suggestion = (if truthy suggestion then suggestion else at_index sugg h)"

text \<open>
  \<^verbatim>\<open>selectSuggestion\<close>, with the keys and suggestions of the render the handler
  belongs to. \<^verbatim>\<open>startsWith(undefined)\<close> looks for the text \<^verbatim>\<open>undefined\<close>.
\<close>

definition selectSuggestion :: "string list \<Rightarrow> string list \<Rightarrow> string option \<Rightarrow> state \<Rightarrow> state" where
  "selectSuggestion keys sugg suggestion st =
     (let sel = selectedSuggestion sugg (highlightedSuggestion st) suggestion;
          isTag = length (getMatchingKeys keys (tags st)
                    (case sel of None \<Rightarrow> ''undefined'' | Some s \<Rightarrow> s)) > 0
      in if truthy sel then
           st\<lparr>tags :=
                (if truthy (incompleteTag (tags st))
                   then Map_set (tags st) (the (incompleteTag (tags st))) sel
                 else if isTag then Map_set (tags st) (the sel) None
                 else Map_set (tags st) ''path'' sel),
              inputValue := [],
              highlightedSuggestion := 0\<rparr>
         else st)"

text \<open>\<^verbatim>\<open>Array.from(tags.entries()).pop()\<close>: the last entry, if any.\<close>

definition lastTag :: "tagmap \<Rightarrow> (string \<times> string option) option" where
  "lastTag m = (case rev m of [] \<Rightarrow> None | e # _ \<Rightarrow> Some e)"

definition removeLastTagSection :: "state \<Rightarrow> state" where
  "removeLastTagSection st =
     (if \<not> truthy (incompleteTag (tags st)) then
        (case lastTag (tags st) of
           None \<Rightarrow> st
         | Some e \<Rightarrow> st\<lparr>tags := Map_set (tags st) (fst e) None\<rparr>)
      else st\<lparr>tags := Map_delete (tags st) (the (incompleteTag (tags st)))\<rparr>)"

text \<open>A click on the chip of a tag.\<close>

definition deleteTag :: "string \<Rightarrow> state \<Rightarrow> state" where
  "deleteTag key st = st\<lparr>tags := Map_delete (tags st) key\<rparr>"

section \<open>Events\<close>

datatype keyname = ArrowDown | ArrowUp | Enter | Escape | Backspace | OtherKey

text \<open>
  What the user can do: type (the input's change event carries the new text), press a
  key, click or hover the suggestion at a position, click the chip of a tag, click the
  overlay behind the panel.
\<close>

datatype event =
    Change string
  | KeyDown keyname
  | ClickSuggestion nat
  | MouseEnter nat
  | ClickChip string
  | ClickOverlay

definition onTextInputChange :: "string \<Rightarrow> state \<Rightarrow> state" where
  "onTextInputChange input st = st\<lparr>inputValue := input, showSuggestions := True\<rparr>"

definition handleEnter :: "string list \<Rightarrow> string list \<Rightarrow> state \<Rightarrow> state" where
  "handleEnter keys sugg st =
     (if \<not> showSuggestions st then st\<lparr>showSuggestions := True\<rparr>
      else selectSuggestion keys sugg None st)"

text \<open>
  \<^verbatim>\<open>onKeyDown\<close>: Backspace on a non-empty input is left to the browser (which then
  sends a change event); a key without an action does nothing.
\<close>

fun onKeyDown :: "string list \<Rightarrow> string list \<Rightarrow> keyname \<Rightarrow> state \<Rightarrow> state" where
  "onKeyDown keys sugg OtherKey st = st"
| "onKeyDown keys sugg Backspace st =
     (if length (inputValue st) > 0 then st else removeLastTagSection st)"
| "onKeyDown keys sugg ArrowDown st =
     st\<lparr>highlightedSuggestion := changeHighlightedSuggestion sugg Down (highlightedSuggestion st)\<rparr>"
| "onKeyDown keys sugg ArrowUp st =
     st\<lparr>highlightedSuggestion := changeHighlightedSuggestion sugg Up (highlightedSuggestion st)\<rparr>"
| "onKeyDown keys sugg Enter st = handleEnter keys sugg st"
| "onKeyDown keys sugg Escape st = st\<lparr>showSuggestions := False\<rparr>"

definition suggestionsVisible :: "string list \<Rightarrow> state \<Rightarrow> bool" where
  "suggestionsVisible sugg st = (showSuggestions st \<and> length sugg > 0)"

text \<open>
  The handler of an event, with the keys and suggestions of the render it belongs to.
  An element that is not on the page (a suggestion row while the panel is hidden, the
  chip of a tag without a value) receives no event: the state is unchanged.
\<close>

fun handle :: "string list \<Rightarrow> string list \<Rightarrow> event \<Rightarrow> state \<Rightarrow> state" where
  "handle keys sugg (Change input) st = onTextInputChange input st"
| "handle keys sugg (KeyDown k) st = onKeyDown keys sugg k st"
| "handle keys sugg (ClickSuggestion i) st =
     (if suggestionsVisible sugg st \<and> i < length sugg
      then selectSuggestion keys sugg (Some (sugg ! i)) st else st)"
| "handle keys sugg (MouseEnter i) st =
     (if suggestionsVisible sugg st \<and> i < length sugg
      then st\<lparr>highlightedSuggestion := int i\<rparr> else st)"
| "handle keys sugg (ClickChip key) st =
     (if list_ex (\<lambda>e. fst e = key \<and> truthy (snd e)) (tags st) then deleteTag key st else st)"
| "handle keys sugg ClickOverlay st =
     (if suggestionsVisible sugg st then st\<lparr>showSuggestions := False\<rparr> else st)"

text \<open>
  After a render, the effect on the highlighted index runs. (The filter effect runs
  too; it changes no state of the component.) A render that throws leaves nothing
  behind.
\<close>

definition afterRender :: "HttpLog list \<Rightarrow> state \<Rightarrow> state" where
  "afterRender data st =
     (case render data (tags st) (inputValue st) of
        Inl e \<Rightarrow> st
      | Inr r \<Rightarrow> st\<lparr>highlightedSuggestion := clampHighlight (snd r) (highlightedSuggestion st)\<rparr>)"

text \<open>
  One event: the handler of the current render, then the next render and its effect.
  When the current render threw, the component is gone and nothing happens.
\<close>

definition dispatch :: "HttpLog list \<Rightarrow> event \<Rightarrow> state \<Rightarrow> state" where
  "dispatch data ev st =
     (case render data (tags st) (inputValue st) of
        Inl e \<Rightarrow> st
      | Inr r \<Rightarrow> afterRender data (handle (fst r) (snd r) ev st))"

inductive reachable :: "HttpLog list \<Rightarrow> state \<Rightarrow> bool" for data :: "HttpLog list" where
  mount: "reachable data (afterRender data init)"
| event: "reachable data st \<Longrightarrow> reachable data (dispatch data ev st)"

section \<open>The properties in the words of the specification\<close>

text \<open>The names of the properties of a record.\<close>

definition fieldNames :: "string list" where
  "fieldNames = [''method'', ''path'', ''statusCode'', ''id'', ''domain'']"

text \<open>
  A tag holds of a record when it is pending, or it is completed and its value is
  exactly the text of the record's property of that name.
\<close>

definition tagHolds :: "HttpLog \<Rightarrow> string \<times> string option \<Rightarrow> bool" where
  "tagHolds item e =
     (case snd e of
        None \<Rightarrow> True
      | Some v \<Rightarrow> map_option toString (getField item (fst e)) = Some v)"

text \<open>The input is on its way to a field name: an unused field name starts with it.\<close>

definition selectingFieldName :: "string list \<Rightarrow> tagmap \<Rightarrow> string \<Rightarrow> bool" where
  "selectingFieldName keys tgs inp =
     (\<exists>k \<in> set keys. prefix inp k \<and> k \<notin> fst ` set tgs)"

definition accepts :: "string list \<Rightarrow> tagmap \<Rightarrow> string \<Rightarrow> HttpLog \<Rightarrow> bool" where
  "accepts keys tgs inp item =
     ((\<forall>e \<in> set tgs. tagHolds item e) \<and>
      (inp \<noteq> [] \<and> \<not> selectingFieldName keys tgs inp
         \<longrightarrow> sublist inp (path item)))"

text \<open>Every tag that the filter compares names a property of the records.\<close>

definition valuedKeysAreFields :: "tagmap \<Rightarrow> bool" where
  "valuedKeysAreFields tgs = (\<forall>e \<in> set tgs. truthy (snd e) \<longrightarrow> fst e \<in> set fieldNames)"

text \<open>No tag has the empty string as its value.\<close>

definition noEmptyValue :: "tagmap \<Rightarrow> bool" where
  "noEmptyValue tgs = list_all (\<lambda>e. snd e \<noteq> Some []) tgs"

text \<open>
  The distinct elements of a list in first-seen order: the element at a position is
  kept when it does not occur before that position.
\<close>

definition firstSeen :: "string list \<Rightarrow> string list" where
  "firstSeen xs = map (\<lambda>i. xs ! i) (filter (\<lambda>i. xs ! i \<notin> set (take i xs)) [0..<length xs])"

text \<open>The stringified values of a field across the dataset.\<close>

definition fieldTexts :: "HttpLog list \<Rightarrow> string \<Rightarrow> string list" where
  "fieldTexts data k =
     concat (map (\<lambda>item. case getField item k of None \<Rightarrow> [] | Some v \<Rightarrow> [toString v]) data)"

text \<open>
  The distinct stringified values of a field whose lowercase form contains the
  lowercase input text, in first-seen order.
\<close>

definition matchingValues :: "HttpLog list \<Rightarrow> string \<Rightarrow> string \<Rightarrow> string list" where
  "matchingValues data k inp =
     firstSeen (filter (\<lambda>s. sublist (toLowerCase inp) (toLowerCase s)) (fieldTexts data k))"

text \<open>The field names that start with the input text and are not keys of the tag store.\<close>

definition unusedFieldNames :: "string list \<Rightarrow> tagmap \<Rightarrow> string \<Rightarrow> string list" where
  "unusedFieldNames keys tgs inp = filter (\<lambda>k. prefix inp k \<and> k \<notin> fst ` set tgs) keys"

text \<open>Every key of the tag store is a field name.\<close>

definition keysAreFields :: "tagmap \<Rightarrow> bool" where
  "keysAreFields tgs = (fst ` set tgs \<subseteq> set fieldNames)"

section \<open>Invariants of the tag store\<close>

text \<open>The number of entries whose value is pending (null).\<close>

definition pendingCount :: "tagmap \<Rightarrow> nat" where
  "pendingCount m = length (filter (\<lambda>e. snd e = None) m)"

text \<open>At most one pending entry, and no empty key.\<close>

definition tagsInv :: "tagmap \<Rightarrow> bool" where
  "tagsInv m = (pendingCount m \<le> 1 \<and> [] \<notin> set (Map_keys m))"

text \<open>Every entry has a value.\<close>

definition valued :: "tagmap \<Rightarrow> bool" where
  "valued m = list_all (\<lambda>e. snd e \<noteq> None) m"

text \<open>Only the last entry, the most recently inserted key, can be pending.\<close>

definition pendingLast :: "tagmap \<Rightarrow> bool" where
  "pendingLast m = valued (butlast m)"

text \<open>
  What every state of the component satisfies: the store is well formed, only its last
  entry can be pending, and every entry with a value is under a field name.
\<close>

definition storeInv :: "tagmap \<Rightarrow> bool" where
  "storeInv m = (wf_tags m \<and> pendingLast m
                 \<and> list_all (\<lambda>e. snd e = None \<or> fst e \<in> set fieldNames) m)"

section \<open>Sample records for the closed examples\<close>

definition log1 :: HttpLog where
  "log1 = \<lparr>method' = GET, path = ''/a'', statusCode = 200, id' = ''1'', domain = ''x.org''\<rparr>"

definition log2 :: HttpLog where
  "log2 = \<lparr>method' = POST, path = ''/users/1'', statusCode = 404, id' = ''2'', domain = ''y.org''\<rparr>"

text \<open>A record whose path is a proper prefix of a field name.\<close>

definition log3 :: HttpLog where
  "log3 = \<lparr>method' = GET, path = ''i'', statusCode = 200, id' = ''3'', domain = ''z.org''\<rparr>"

section \<open>Strings: the library's words for the two tests\<close>

lemma startsWith_prefix: "startsWith s t = prefix t s"
  by (induction s t rule: startsWith.induct) auto

lemma includes_sublist: "includes' s t = sublist t s"
  by (induction s) (auto simp: startsWith_prefix sublist_Cons_right)

section \<open>Helper facts\<close>

lemma filterE_Inr:
  "(\<And>x. x \<in> set xs \<Longrightarrow> f x = Inr (p x)) \<Longrightarrow> filterE f xs = Inr (filter p xs)"
  by (induction xs) auto

lemma Map_has_iff: "Map_has m k = (k \<in> fst ` set m)"
  by (auto simp: Map_has_def list_ex_iff)

lemma getField_fieldNames: "k \<in> set fieldNames \<Longrightarrow> \<exists>v. getField item k = Some v"
  by (auto simp: fieldNames_def getField_def)

section \<open>The filter evaluator\<close>

lemma tagsMatch_spec:
  "valuedKeysAreFields tgs \<Longrightarrow> noEmptyValue tgs
   \<Longrightarrow> tagsMatch item tgs = Inr (\<forall>e \<in> set tgs. tagHolds item e)"
proof (induction tgs)
  case Nil
  then show ?case by simp
next
  case (Cons e tgs)
  obtain k v where e: "e = (k, v)" by (cases e)
  from Cons.prems have rest: "valuedKeysAreFields tgs" "noEmptyValue tgs"
    by (simp_all add: valuedKeysAreFields_def noEmptyValue_def)
  show ?case
  proof (cases v)
    case None
    then have "tagHolds item (k, v)" by (simp add: tagHolds_def)
    with None Cons.IH[OF rest] show ?thesis by (simp add: e)
  next
    case (Some s)
    with Cons.prems have s: "s \<noteq> []" by (simp add: noEmptyValue_def e)
    with Cons.prems Some have "k \<in> set fieldNames"
      by (simp add: valuedKeysAreFields_def e)
    then obtain x where x: "getField item k = Some x"
      using getField_fieldNames by blast
    show ?thesis using Cons.IH[OF rest] Some s x
      by (auto simp: e tagHolds_def)
  qed
qed

lemma keepItem_spec:
  "valuedKeysAreFields tgs \<Longrightarrow> noEmptyValue tgs
   \<Longrightarrow> keepItem keys tgs inp item = Inr (accepts keys tgs inp item)"
  by (auto simp: keepItem_def tagsMatch_spec accepts_def selectingFieldName_def list_ex_iff
      startsWith_prefix Map_has_iff includes_sublist)

lemma filterResults_spec:
  assumes "valuedKeysAreFields tgs" and "noEmptyValue tgs"
  shows "filterResults keys data tgs inp = Inr (filter (accepts keys tgs inp) data)"
  unfolding filterResults_def
  by (rule filterE_Inr) (simp add: keepItem_spec[OF assms])

text \<open>
  C8. With an empty tag store and an empty input text the filter evaluator returns
  the dataset unchanged, whatever the dataset and the keys.
\<close>

theorem filter_identity: "filterResults keys D [] [] = Inr D"
proof -
  have "keepItem keys [] [] item = Inr True" for item
    by (simp add: keepItem_def)
  then have "filterResults keys D [] [] = Inr (filter (\<lambda>_. True) D)"
    unfolding filterResults_def by (intro filterE_Inr) simp
  then show ?thesis by simp
qed

lemma tagsMatch_falsy:
  "tagsMatch item (map (\<lambda>e. (fst e, if snd e = Some [] then None else snd e)) tgs) = tagsMatch item tgs"
proof (induction tgs)
  case Nil
  then show ?case by simp
next
  case (Cons e tgs)
  obtain k v where e: "e = (k, v)" by (cases e)
  show ?case using Cons.IH by (cases v) (auto simp: e split: option.splits)
qed

text \<open>
  C10. A tag whose value is the empty string imposes no constraint: turning every
  such value into a pending one (null) changes nothing in what the filter evaluator
  returns, be it a list of records or an exception.
\<close>

theorem empty_value_as_pending:
  "filterResults keys data (map (\<lambda>e. (fst e, if snd e = Some [] then None else snd e)) tgs) inp
     = filterResults keys data tgs inp"
proof -
  let ?tgs' = "map (\<lambda>e. (fst e, if snd e = Some [] then None else snd e)) tgs"
  have "fst ` set ?tgs' = fst ` set tgs" by force
  then have "Map_has ?tgs' = Map_has tgs"
    by (intro ext) (simp add: Map_has_iff)
  then have "keepItem keys ?tgs' inp = keepItem keys tgs inp"
    by (intro ext) (simp only: keepItem_def tagsMatch_falsy)
  then show ?thesis by (simp add: filterResults_def)
qed

theorem empty_value_as_pending_witness:
  "filterResults (Object_keys log1) [log1, log2] [(''method'', Some ''GET''), (''path'', None)] []
     = filterResults (Object_keys log1) [log1, log2] [(''method'', Some ''GET''), (''path'', Some [])] []
   \<and> filterResults (Object_keys log1) [log1, log2] [(''method'', Some ''GET''), (''path'', Some [])] []
     = Inr [log1]"
proof -
  have "filterResults (Object_keys log1) [log1, log2] [(''method'', Some ''GET''), (''path'', Some [])] []
          = Inr [log1]"
    by code_simp
  then show ?thesis
    using empty_value_as_pending [of "Object_keys log1" "[log1, log2]"
        "[(''method'', Some ''GET''), (''path'', Some [])]" "[]"]
    by simp
qed

section \<open>The suggestion engine\<close>

lemma Set_from_snoc: "Set_from (xs @ [x]) = Set_add (Set_from xs) x"
  by (simp add: Set_from_def)

lemma set_Set_from: "set (Set_from xs) = set xs"
  by (induction xs rule: rev_induct) (auto simp: Set_from_snoc, simp add: Set_from_def)

lemma firstSeen_snoc: "firstSeen (xs @ [x]) = firstSeen xs @ (if x \<in> set xs then [] else [x])"
proof -
  let ?P = "\<lambda>ys i. ys ! i \<notin> set (take i ys)"
  have u: "[0..<length (xs @ [x])] = [0..<length xs] @ [length xs]" by simp
  have f: "filter (?P (xs @ [x])) [0..<length xs] = filter (?P xs) [0..<length xs]"
    by (rule filter_cong) (auto simp: nth_append)
  have m: "map (\<lambda>i. (xs @ [x]) ! i) (filter (?P xs) [0..<length xs])
             = map (\<lambda>i. xs ! i) (filter (?P xs) [0..<length xs])"
    by (rule map_cong) (auto simp: nth_append)
  have l: "map (\<lambda>i. (xs @ [x]) ! i) (filter (?P (xs @ [x])) [length xs])
             = (if x \<in> set xs then [] else [x])"
    by simp
  have "firstSeen (xs @ [x])
          = map (\<lambda>i. (xs @ [x]) ! i) (filter (?P (xs @ [x])) [0..<length xs])
            @ map (\<lambda>i. (xs @ [x]) ! i) (filter (?P (xs @ [x])) [length xs])"
    unfolding firstSeen_def u by (simp only: filter_append map_append)
  also have "\<dots> = firstSeen xs @ (if x \<in> set xs then [] else [x])"
    unfolding firstSeen_def by (simp only: f m l)
  finally show ?thesis .
qed

lemma Set_from_firstSeen: "Set_from xs = firstSeen xs"
proof (induction xs rule: rev_induct)
  case Nil
  show ?case by (simp add: Set_from_def firstSeen_def)
next
  case (snoc x xs)
  then show ?case
    using set_Set_from[of xs] by (simp add: Set_from_snoc firstSeen_snoc)
qed

lemma keepValues_Some:
  "keepValues inp (map (\<lambda>x. Some (f x)) xs)
     = Inr (map f (filter (\<lambda>x. includes' (toLowerCase (toString (f x))) (toLowerCase inp)) xs))"
  by (induction xs) auto

lemma fieldTexts_field:
  assumes "k \<in> set fieldNames"
  shows "map (\<lambda>i. getField i k) data = map Some (map (\<lambda>i. the (getField i k)) data)"
    and "fieldTexts data k = map toString (map (\<lambda>i. the (getField i k)) data)"
proof -
  have s: "\<exists>v. getField item k = Some v" for item
    using assms by (rule getField_fieldNames)
  show "map (\<lambda>i. getField i k) data = map Some (map (\<lambda>i. the (getField i k)) data)"
    using s by (induction data) auto
  show "fieldTexts data k = map toString (map (\<lambda>i. the (getField i k)) data)"
    unfolding fieldTexts_def
  proof (induction data)
    case Nil
    show ?case by simp
  next
    case (Cons item data)
    obtain v where "getField item k = Some v" using s by blast
    with Cons show ?case by simp
  qed
qed

lemma getSuggestions_field:
  assumes "k \<in> set fieldNames"
  shows "getSuggestions data k inp = Inr (matchingValues data k inp)"
  by (simp add: getSuggestions_def fieldTexts_field[OF assms] keepValues_Some
      matchingValues_def Set_from_firstSeen filter_map comp_def includes_sublist)

lemma incompleteTag_key: "incompleteTag tgs = Some k \<Longrightarrow> k \<in> fst ` set tgs"
  by (induction tgs) (auto simp: incompleteTag_def split: if_splits)

text \<open>
  C2. For every dataset, input text and tag store whose keys are field names, the
  suggestion engine returns: when an incomplete tag key exists, the distinct
  stringified values of that field whose lowercase form contains the lowercase input
  text, in first-seen order; otherwise the distinct path values that contain the input
  text case-insensitively, when path is not a key of the store and that list is not
  empty; otherwise the field names that start with the input text and are not keys of
  the tag store.
\<close>

theorem suggestions_spec:
  assumes "keysAreFields tgs"
  shows "suggestions keys data tgs inp =
           Inr (case incompleteTag tgs of
                  Some k \<Rightarrow> matchingValues data k inp
                | None \<Rightarrow>
                    if ''path'' \<notin> fst ` set tgs \<and> matchingValues data ''path'' inp \<noteq> []
                    then matchingValues data ''path'' inp
                    else unusedFieldNames keys tgs inp)"
proof (cases "incompleteTag tgs")
  case None
  have p: "''path'' \<in> set fieldNames" by (simp add: fieldNames_def)
  show ?thesis
    by (simp add: suggestions_def None getSuggestions_field[OF p] Map_has_iff
        getMatchingKeys_def unusedFieldNames_def startsWith_prefix)
next
  case (Some k)
  then have "k \<in> set fieldNames"
    using assms incompleteTag_key by (auto simp: keysAreFields_def)
  moreover from this have "k \<noteq> []" by (auto simp: fieldNames_def)
  ultimately show ?thesis
    by (simp add: suggestions_def Some getSuggestions_field)
qed

theorem suggestions_spec_witness:
  "keysAreFields [(''method'', None)]
   \<and> suggestions (Object_keys log1) [log1, log2, log1] [(''method'', None)] ''p'' = Inr [''POST'']
   \<and> matchingValues [log1, log2, log1] ''method'' ''p'' = [''POST'']
   \<and> keysAreFields [(''method'', Some ''GET'')]
   \<and> suggestions (Object_keys log1) [log1, log2, log1] [(''method'', Some ''GET'')] ''US'' = Inr [''/users/1'']
   \<and> matchingValues [log1, log2, log1] ''path'' ''US'' = [''/users/1'']
   \<and> suggestions (Object_keys log1) [log1, log2, log1] [(''method'', Some ''GET'')] ''d'' = Inr [''domain'']
   \<and> matchingValues [log1, log2, log1] ''path'' ''d'' = []
   \<and> unusedFieldNames (Object_keys log1) [(''method'', Some ''GET'')] ''d'' = [''domain'']"
proof -
  have h1: "keysAreFields [(''method'', None)]" by code_simp
  have i1: "incompleteTag [(''method'', None)] = Some ''method''" by code_simp
  have e1: "suggestions (Object_keys log1) [log1, log2, log1] [(''method'', None)] ''p'' = Inr [''POST'']"
    by code_simp
  have h2: "keysAreFields [(''method'', Some ''GET'')]" by code_simp
  have i2: "incompleteTag [(''method'', Some ''GET'')] = None" by code_simp
  have e2: "suggestions (Object_keys log1) [log1, log2, log1] [(''method'', Some ''GET'')] ''US'' = Inr [''/users/1'']"
    by code_simp
  have e3: "suggestions (Object_keys log1) [log1, log2, log1] [(''method'', Some ''GET'')] ''d'' = Inr [''domain'']"
    by code_simp
  have m3: "matchingValues [log1, log2, log1] ''path'' ''d'' = []" by code_simp
  have m2: "matchingValues [log1, log2, log1] ''path'' ''US'' = [''/users/1'']" by code_simp
  have u3: "unusedFieldNames (Object_keys log1) [(''method'', Some ''GET'')] ''d'' = [''domain'']"
    by code_simp
  have "matchingValues [log1, log2, log1] ''method'' ''p'' = [''POST'']"
    using suggestions_spec [OF h1, of "Object_keys log1" "[log1, log2, log1]" "''p''"] e1 i1
    by simp
  then show ?thesis
    using h1 e1 h2 e2 e3 m2 m3 u3 by simp
qed

section \<open>The highlighted suggestion\<close>

text \<open>
  C9, as the code has it. For every suggestion list and every starting index within
  \<open>[0, len - 1]\<close>, ArrowUp and ArrowDown keep the index within that range and move it
  by one step, saturating at the bounds with no wraparound: ArrowUp at 0 and ArrowDown
  at \<open>len - 1\<close> leave it unchanged.
\<close>

theorem arrows_stay_in_range:
  assumes "0 \<le> h" and "h \<le> int (length sugg) - 1"
  shows "0 \<le> changeHighlightedSuggestion sugg d h
       \<and> changeHighlightedSuggestion sugg d h \<le> int (length sugg) - 1
       \<and> changeHighlightedSuggestion sugg Up h = (if h = 0 then 0 else h - 1)
       \<and> changeHighlightedSuggestion sugg Down h = (if h = int (length sugg) - 1 then h else h + 1)"
  using assms by (cases d) (auto simp: changeHighlightedSuggestion_def)

theorem arrows_stay_in_range_witness:
  "(0::int) \<le> 2 \<and> (2::int) \<le> int (length [''a'', ''b'', ''c'']) - 1
   \<and> changeHighlightedSuggestion [''a'', ''b'', ''c''] Down 2 = 2
   \<and> changeHighlightedSuggestion [''a'', ''b'', ''c''] Up 2 = 1"
  using arrows_stay_in_range [of 2 "[''a'', ''b'', ''c'']" Down]
  by simp

text \<open>
  C9 as stated, for every starting index, fails: from the index \<open>-1\<close>, which the
  clamping effect leaves behind on an empty list, ArrowUp on a list of two
  suggestions leaves the index at \<open>-1\<close>, outside \<open>[0, 1]\<close>.
\<close>

theorem arrows_counterexample:
  "changeHighlightedSuggestion [''a'', ''b''] Up (- 1) = - 1"
  by (simp add: changeHighlightedSuggestion_def)

lemma clampHighlight_upper: "clampHighlight sugg h \<le> int (length sugg) - 1"
  by (simp add: clampHighlight_def)

lemma clampHighlight_lower: "0 \<le> h \<Longrightarrow> sugg \<noteq> [] \<Longrightarrow> 0 \<le> clampHighlight sugg h"
  by (simp add: clampHighlight_def)

text \<open>
  C5 fails on the code. The effect only clamps from above: once the list has been
  empty the index is \<open>-1\<close>, and it stays \<open>-1\<close> when the list grows again. With one record
  of path \<open>/a\<close>: typing \<open>zzz\<close> empties the suggestions, clearing the input brings back
  the suggestion \<open>/a\<close>, and the highlighted index is \<open>-1\<close>.
\<close>

theorem clamp_stays_below:
  "clampHighlight [''/a''] (clampHighlight [] 0) = - 1
   \<and> render [log1] [] ''zzz'' = Inr (Object_keys log1, [])
   \<and> render [log1] [] [] = Inr (Object_keys log1, [''/a''])
   \<and> dispatch [log1] (Change []) (dispatch [log1] (Change ''zzz'') (afterRender [log1] init))
       = \<lparr>inputValue = [], tags = [], showSuggestions = True, highlightedSuggestion = - 1\<rparr>"
  by code_simp

section \<open>Rendering and commit\<close>

lemma render_nonempty_dataset:
  assumes "keysAreFields tgs"
  shows "\<exists>sugg. render (item # rest) tgs inp = Inr (Object_keys item, sugg)"
proof (cases "incompleteTag tgs")
  case None
  have "''path'' \<in> set fieldNames" by (simp add: fieldNames_def)
  then show ?thesis
    by (simp add: render_def dataKeys_def suggestions_def None getSuggestions_field)
next
  case (Some k)
  then have "k \<in> set fieldNames"
    using assms incompleteTag_key by (auto simp: keysAreFields_def)
  moreover from this have "k \<noteq> []" by (auto simp: fieldNames_def)
  ultimately show ?thesis
    by (simp add: render_def dataKeys_def suggestions_def Some getSuggestions_field)
qed

text \<open>
  C7 fails on the code. With the empty dataset the render throws before it has a
  suggestion list: \<^verbatim>\<open>Object.keys(data[0])\<close> is applied to \<^verbatim>\<open>undefined\<close>.
\<close>

theorem render_empty_dataset: "render [] tgs inp = Inl TypeError"
  by (simp add: render_def dataKeys_def)

lemma selectSuggestion_noop:
  "\<not> truthy (selectedSuggestion sugg (highlightedSuggestion st) s)
   \<Longrightarrow> selectSuggestion keys sugg s st = st"
  by (simp add: selectSuggestion_def Let_def)

text \<open>
  C3 fails on the code. The test for a field name is that some unused field name starts
  with the candidate, not that the candidate is one. With one record of path \<open>i\<close>
  the only suggestion is \<open>i\<close>, which is not a field name; committing it
  stores the key \<open>i\<close> with a pending value instead of the tag \<open>path = i\<close>, and the
  next render throws.
\<close>

theorem commit_prefix_of_field_name:
  "render [log3] [] [] = Inr (Object_keys log3, [''i''])
   \<and> ''i'' \<notin> set (Object_keys log3)
   \<and> selectSuggestion (Object_keys log3) [''i''] None
        \<lparr>inputValue = [], tags = [], showSuggestions = True, highlightedSuggestion = 0\<rparr>
       = \<lparr>inputValue = [], tags = [(''i'', None)], showSuggestions = True, highlightedSuggestion = 0\<rparr>
   \<and> dispatch [log3] (KeyDown Enter) (dispatch [log3] (KeyDown Enter) (afterRender [log3] init))
       = \<lparr>inputValue = [], tags = [(''i'', None)], showSuggestions = True, highlightedSuggestion = 0\<rparr>
   \<and> render [log3] [(''i'', None)] [] = Inl TypeError"
  by code_simp

section \<open>The tag store\<close>

lemma pendingCount_Map_set_Some: "pendingCount (Map_set m k (Some v)) \<le> pendingCount m"
  by (induction m k "Some v :: string option" rule: Map_set.induct) (auto simp: pendingCount_def)

lemma pendingCount_Map_set_None: "pendingCount m = 0 \<Longrightarrow> pendingCount (Map_set m k None) \<le> 1"
  by (induction m k "None :: string option" rule: Map_set.induct)
     (auto simp: pendingCount_def split: if_splits)

lemma pendingCount_Map_delete: "pendingCount (Map_delete m k) \<le> pendingCount m"
proof -
  have "filter (\<lambda>e. snd e = None) (Map_delete m k) = filter (\<lambda>e. fst e \<noteq> k) (filter (\<lambda>e. snd e = None) m)"
    by (simp add: Map_delete_def conj_commute)
  then show ?thesis
    unfolding pendingCount_def by (metis length_filter_le)
qed

lemma incompleteTag_None: "incompleteTag m = None \<Longrightarrow> pendingCount m = 0"
  by (induction m) (auto simp: incompleteTag_def pendingCount_def split: if_splits)

lemma incompleteTag_Map_keys: "incompleteTag m = Some k \<Longrightarrow> k \<in> set (Map_keys m)"
  using incompleteTag_key [of m k] by (simp add: Map_keys_def)

lemma incompleteTag_falsy:
  "\<not> truthy (incompleteTag m) \<Longrightarrow> [] \<notin> set (Map_keys m) \<Longrightarrow> incompleteTag m = None"
  using incompleteTag_Map_keys [of m] by (cases "incompleteTag m") auto

lemma keys_Map_set: "set (Map_keys (Map_set m k v)) = insert k (set (Map_keys m))"
  by (induction m k v rule: Map_set.induct) (auto simp: Map_keys_def)

lemma keys_Map_delete: "set (Map_keys (Map_delete m k)) = set (Map_keys m) - {k}"
  by (auto simp: Map_delete_def Map_keys_def)

lemma lastTag_key: "lastTag m = Some e \<Longrightarrow> fst e \<in> set (Map_keys m)"
  by (cases m rule: rev_cases) (auto simp: lastTag_def Map_keys_def)

lemma tagsInv_selectSuggestion:
  assumes "tagsInv (tags st)"
  shows "tagsInv (tags (selectSuggestion keys sugg s st))"
proof (cases "truthy (selectedSuggestion sugg (highlightedSuggestion st) s)")
  case False
  then show ?thesis using assms by (simp add: selectSuggestion_def Let_def)
next
  case True
  then obtain c where c: "selectedSuggestion sugg (highlightedSuggestion st) s = Some c" "c \<noteq> []"
    by (cases "selectedSuggestion sugg (highlightedSuggestion st) s") auto
  show ?thesis
  proof (cases "truthy (incompleteTag (tags st))")
    case True
    then obtain k where k: "incompleteTag (tags st) = Some k" "k \<noteq> []"
      by (cases "incompleteTag (tags st)") auto
    have "tags (selectSuggestion keys sugg s st) = Map_set (tags st) k (Some c)"
      by (simp add: selectSuggestion_def Let_def c k)
    moreover have "pendingCount (Map_set (tags st) k (Some c)) \<le> 1"
      using pendingCount_Map_set_Some [of "tags st" k c] assms by (simp add: tagsInv_def)
    ultimately show ?thesis
      using assms k by (simp add: tagsInv_def keys_Map_set)
  next
    case False
    with assms have n: "incompleteTag (tags st) = None"
      by (simp add: incompleteTag_falsy tagsInv_def)
    then have z: "pendingCount (tags st) = 0" by (rule incompleteTag_None)
    have "tags (selectSuggestion keys sugg s st) = Map_set (tags st) c None
        \<or> tags (selectSuggestion keys sugg s st) = Map_set (tags st) ''path'' (Some c)"
      by (simp add: selectSuggestion_def Let_def c n)
    then show ?thesis
      using pendingCount_Map_set_None [OF z, of c]
        pendingCount_Map_set_Some [of "tags st" "''path''" c] z c assms
      by (auto simp: tagsInv_def keys_Map_set)
  qed
qed

lemma tagsInv_removeLastTagSection:
  assumes "tagsInv (tags st)"
  shows "tagsInv (tags (removeLastTagSection st))"
proof (cases "truthy (incompleteTag (tags st))")
  case True
  then show ?thesis
    using assms pendingCount_Map_delete [of "tags st" "the (incompleteTag (tags st))"]
      keys_Map_delete [of "tags st" "the (incompleteTag (tags st))"]
    by (auto simp: removeLastTagSection_def tagsInv_def)
next
  case False
  with assms have n: "incompleteTag (tags st) = None"
    by (simp add: incompleteTag_falsy tagsInv_def)
  then have z: "pendingCount (tags st) = 0" by (rule incompleteTag_None)
  show ?thesis
  proof (cases "lastTag (tags st)")
    case None
    then show ?thesis using assms by (simp add: removeLastTagSection_def n)
  next
    case (Some e)
    then show ?thesis
      using assms pendingCount_Map_set_None [OF z, of "fst e"] lastTag_key [OF Some]
      by (auto simp: removeLastTagSection_def n tagsInv_def keys_Map_set)
  qed
qed

lemma tagsInv_deleteTag:
  assumes "tagsInv (tags st)"
  shows "tagsInv (tags (deleteTag k st))"
  using assms pendingCount_Map_delete [of "tags st" k] keys_Map_delete [of "tags st" k]
  by (auto simp: deleteTag_def tagsInv_def)

lemma tagsInv_handle:
  assumes "tagsInv (tags st)"
  shows "tagsInv (tags (handle keys sugg ev st))"
proof (cases ev)
  case (KeyDown k)
  then show ?thesis
    using assms tagsInv_selectSuggestion [OF assms] tagsInv_removeLastTagSection [OF assms]
    by (cases k) (auto simp: handleEnter_def)
qed (use assms tagsInv_selectSuggestion [OF assms] tagsInv_deleteTag [OF assms]
      in \<open>auto simp: onTextInputChange_def\<close>)

lemma tags_afterRender: "tags (afterRender data st) = tags st"
  by (simp add: afterRender_def split: sum.splits)

lemma tagsInv_dispatch:
  assumes "tagsInv (tags st)"
  shows "tagsInv (tags (dispatch data ev st))"
  using assms tagsInv_handle [OF assms]
  by (simp add: dispatch_def tags_afterRender split: sum.splits)

lemma reachable_tagsInv: "reachable data st \<Longrightarrow> tagsInv (tags st)"
proof (induction rule: reachable.induct)
  case mount
  show ?case by (simp add: tags_afterRender init_def tagsInv_def pendingCount_def Map_keys_def)
next
  case (event st ev)
  then show ?case by (simp add: tagsInv_dispatch)
qed

text \<open>
  C4. Starting from the empty store, after every event the tag store has at most one
  pending entry; and from every such state, a commit, the removal of the last tag
  section and the deletion of a tag leave at most one pending entry.
\<close>

theorem at_most_one_pending:
  assumes "reachable data st"
  shows "pendingCount (tags st) \<le> 1
       \<and> pendingCount (tags (selectSuggestion keys sugg s st)) \<le> 1
       \<and> pendingCount (tags (removeLastTagSection st)) \<le> 1
       \<and> pendingCount (tags (deleteTag k st)) \<le> 1"
proof -
  have i: "tagsInv (tags st)" using assms by (rule reachable_tagsInv)
  show ?thesis
    using i tagsInv_selectSuggestion [OF i, of keys sugg s] tagsInv_removeLastTagSection [OF i]
      tagsInv_deleteTag [OF i, of k]
    by (simp add: tagsInv_def)
qed

theorem at_most_one_pending_witness:
  "reachable [log1] (dispatch [log1] (KeyDown Enter) (dispatch [log1] (Change ''me'') (afterRender [log1] init)))
   \<and> tags (dispatch [log1] (KeyDown Enter) (dispatch [log1] (Change ''me'') (afterRender [log1] init)))
       = [(''method'', None)]
   \<and> pendingCount (tags (dispatch [log1] (KeyDown Enter) (dispatch [log1] (Change ''me'') (afterRender [log1] init)))) \<le> 1
   \<and> pendingCount (tags (selectSuggestion (Object_keys log1) [''GET''] None
         (dispatch [log1] (KeyDown Enter) (dispatch [log1] (Change ''me'') (afterRender [log1] init))))) \<le> 1"
proof -
  let ?st = "dispatch [log1] (KeyDown Enter) (dispatch [log1] (Change ''me'') (afterRender [log1] init))"
  have r: "reachable [log1] ?st"
    by (intro reachable.intros)
  have t: "tags ?st = [(''method'', None)]"
    by code_simp
  show ?thesis
    using r t at_most_one_pending [OF r, of "Object_keys log1" "[''GET'']" None "[]"]
    by simp
qed

lemma Map_set_last: "k \<notin> set (Map_keys m) \<Longrightarrow> Map_set (m @ [(k, v)]) k w = m @ [(k, w)]"
  by (induction m) (auto simp: Map_keys_def)

lemma fieldNames_no_proper_prefix:
  "a \<in> set fieldNames \<Longrightarrow> b \<in> set fieldNames \<Longrightarrow> prefix a b \<Longrightarrow> a = b"
  by (auto simp: fieldNames_def)

lemma getField_Some_field: "getField item k = Some v \<Longrightarrow> k \<in> set fieldNames"
  by (simp add: getField_def fieldNames_def split: if_splits)

lemma valued_pendingLast: "valued m \<Longrightarrow> pendingLast m"
  by (induction m) (auto simp: valued_def pendingLast_def)

lemma incompleteTag_None_valued: "incompleteTag m = None \<Longrightarrow> valued m"
  by (induction m) (auto simp: incompleteTag_def valued_def split: if_splits)

lemma pendingLast_Cons: "pendingLast (x # m) = (m = [] \<or> (snd x \<noteq> None \<and> pendingLast m))"
  by (auto simp: pendingLast_def valued_def)

lemma pendingLast_snoc: "pendingLast (m @ [x]) = valued m"
  by (simp add: pendingLast_def)

lemma valued_filter: "valued m \<Longrightarrow> valued (filter P m)"
  by (induction m) (auto simp: valued_def)

lemma pendingLast_filter: "pendingLast m \<Longrightarrow> pendingLast (filter P m)"
proof (cases m rule: rev_cases)
  case Nil
  then show ?thesis by (simp add: pendingLast_def valued_def)
next
  case (snoc xs x)
  assume "pendingLast m"
  then have "valued (filter P xs)" by (simp add: snoc pendingLast_snoc valued_filter)
  then show ?thesis
    by (auto simp: snoc pendingLast_snoc intro: valued_pendingLast)
qed

lemma Map_set_new: "k \<notin> set (Map_keys m) \<Longrightarrow> Map_set m k w = m @ [(k, w)]"
  by (induction m) (auto simp: Map_keys_def)

lemma Map_set_nonempty: "Map_set m k w \<noteq> []"
  by (cases m) (auto split: if_splits)

lemma pendingLast_Map_set_Some:
  "pendingLast m \<Longrightarrow> k \<in> set (Map_keys m) \<Longrightarrow> pendingLast (Map_set m k (Some c))"
proof (induction m)
  case Nil
  then show ?case by (simp add: Map_keys_def)
next
  case (Cons x m)
  obtain k' v' where x: "x = (k', v')" by (cases x)
  show ?case
  proof (cases "k' = k")
    case True
    with Cons.prems show ?thesis by (auto simp: x pendingLast_Cons)
  next
    case False
    with Cons.prems have "k \<in> set (Map_keys m)" by (simp add: x Map_keys_def)
    with Cons False show ?thesis
      by (auto simp: x pendingLast_Cons Map_set_nonempty Map_keys_def)
  qed
qed

lemma valued_Map_set_Some: "valued m \<Longrightarrow> valued (Map_set m k (Some c))"
  by (induction m) (auto simp: valued_def)

lemma distinct_Map_set: "distinct (Map_keys m) \<Longrightarrow> distinct (Map_keys (Map_set m k w))"
proof (induction m)
  case Nil
  then show ?case by (simp add: Map_keys_def)
next
  case (Cons x m)
  then have "distinct (Map_keys (Map_set m k w))" by (simp add: Map_keys_def)
  moreover have "set (Map_keys (Map_set m k w)) = insert k (set (Map_keys m))" by (rule keys_Map_set)
  ultimately show ?case using Cons.prems
    by (cases x) (auto simp: Map_keys_def)
qed

lemma distinct_Map_delete: "distinct (Map_keys m) \<Longrightarrow> distinct (Map_keys (Map_delete m k))"
  by (simp add: Map_keys_def Map_delete_def distinct_map_filter)

lemma wf_tags_Map_set: "wf_tags m \<Longrightarrow> k \<noteq> [] \<Longrightarrow> wf_tags (Map_set m k w)"
  by (simp add: wf_tags_def distinct_Map_set keys_Map_set)

lemma wf_tags_Map_delete: "wf_tags m \<Longrightarrow> wf_tags (Map_delete m k)"
  by (simp add: wf_tags_def distinct_Map_delete keys_Map_delete)

lemma fields_Map_set:
  assumes "list_all (\<lambda>e. snd e = None \<or> fst e \<in> set fieldNames) m"
    and "w = None \<or> k \<in> set fieldNames"
  shows "list_all (\<lambda>e. snd e = None \<or> fst e \<in> set fieldNames) (Map_set m k w)"
  using assms by (induction m k w rule: Map_set.induct) auto

lemma storeInv_Map_delete: "storeInv m \<Longrightarrow> storeInv (Map_delete m k)"
  unfolding storeInv_def
  using wf_tags_Map_delete [of m k] pendingLast_filter [of m "\<lambda>e. fst e \<noteq> k"]
  by (auto simp: Map_delete_def list_all_iff)

lemma render_facts:
  assumes "render data m inp = Inr r"
  shows "fst r = fieldNames"
    and "truthy (incompleteTag m) \<Longrightarrow> the (incompleteTag m) \<in> set fieldNames"
proof -
  from assms obtain item rest where d: "data = item # rest"
    by (cases data) (auto simp: render_def dataKeys_def)
  from assms have s: "suggestions (Object_keys item) data m inp = Inr (snd r)"
    by (auto simp: render_def dataKeys_def d split: sum.splits)
  from assms show "fst r = fieldNames"
    by (auto simp: render_def dataKeys_def d Object_keys_def fieldNames_def split: sum.splits)
  show "the (incompleteTag m) \<in> set fieldNames" if t: "truthy (incompleteTag m)"
  proof -
    from s t have "getSuggestions data (the (incompleteTag m)) inp = Inr (snd r)"
      by (simp add: suggestions_def)
    then obtain v where "getField item (the (incompleteTag m)) = Some v"
      by (cases "getField item (the (incompleteTag m))")
         (auto simp: getSuggestions_def d split: sum.splits)
    then show ?thesis by (rule getField_Some_field)
  qed
qed

lemma storeInv_selectSuggestion:
  assumes inv: "storeInv (tags st)"
    and f: "truthy (incompleteTag (tags st)) \<Longrightarrow> the (incompleteTag (tags st)) \<in> set fieldNames"
  shows "storeInv (tags (selectSuggestion fieldNames sugg s st))"
proof (cases "truthy (selectedSuggestion sugg (highlightedSuggestion st) s)")
  case False
  then show ?thesis using inv by (simp add: selectSuggestion_def Let_def)
next
  case True
  then obtain c where c: "selectedSuggestion sugg (highlightedSuggestion st) s = Some c" "c \<noteq> []"
    by (cases "selectedSuggestion sugg (highlightedSuggestion st) s") auto
  let ?m = "tags st"
  from inv have wf: "wf_tags ?m" and pl: "pendingLast ?m"
    and fl: "list_all (\<lambda>e. snd e = None \<or> fst e \<in> set fieldNames) ?m"
    by (simp_all add: storeInv_def)
  show ?thesis
  proof (cases "truthy (incompleteTag ?m)")
    case True
    then obtain k where k: "incompleteTag ?m = Some k" "k \<noteq> []"
      by (cases "incompleteTag ?m") auto
    have kk: "k \<in> set (Map_keys ?m)" using k(1) by (rule incompleteTag_Map_keys)
    have kf: "k \<in> set fieldNames" using f [OF True] k by simp
    have "tags (selectSuggestion fieldNames sugg s st) = Map_set ?m k (Some c)"
      by (simp add: selectSuggestion_def Let_def c k)
    then show ?thesis
      using wf_tags_Map_set [OF wf k(2)] pendingLast_Map_set_Some [OF pl kk] fields_Map_set [OF fl] kf
      by (simp add: storeInv_def)
  next
    case False
    with wf have n: "incompleteTag ?m = None"
      by (simp add: incompleteTag_falsy wf_tags_def)
    then have v: "valued ?m" by (rule incompleteTag_None_valued)
    show ?thesis
    proof (cases "length (getMatchingKeys fieldNames ?m c) > 0")
      case isTag: True
      then obtain k where k: "k \<in> set fieldNames" "prefix c k" "k \<notin> set (Map_keys ?m)"
        by (auto simp: getMatchingKeys_def startsWith_prefix Map_has_iff Map_keys_def filter_empty_conv)
      have new: "c \<notin> set (Map_keys ?m)"
      proof
        assume "c \<in> set (Map_keys ?m)"
        then obtain e where e: "e \<in> set ?m" "fst e = c" by (auto simp: Map_keys_def)
        with v have "snd e \<noteq> None" by (simp add: valued_def list_all_iff)
        with fl e have "c \<in> set fieldNames" by (auto simp: list_all_iff)
        with k have "c = k" using fieldNames_no_proper_prefix by blast
        with k e show False by (auto simp: Map_keys_def)
      qed
      have t: "tags (selectSuggestion fieldNames sugg s st) = ?m @ [(c, None)]"
        using isTag by (simp add: selectSuggestion_def Let_def c n Map_set_new [OF new])
      have "wf_tags (Map_set ?m c None)" using wf c(2) by (rule wf_tags_Map_set)
      then have "wf_tags (?m @ [(c, None)])" by (simp add: Map_set_new [OF new])
      then show ?thesis
        using v fl by (simp add: t storeInv_def pendingLast_snoc)
    next
      case False
      then have t: "tags (selectSuggestion fieldNames sugg s st) = Map_set ?m ''path'' (Some c)"
        by (simp add: selectSuggestion_def Let_def c n)
      have p: "''path'' \<in> set fieldNames" by (simp add: fieldNames_def)
      have "valued (Map_set ?m ''path'' (Some c))"
        using v by (rule valued_Map_set_Some)
      then show ?thesis
        using wf_tags_Map_set [OF wf, of "''path''"] fields_Map_set [OF fl, of "Some c" "''path''"] p
        by (simp add: t storeInv_def valued_pendingLast)
    qed
  qed
qed

lemma storeInv_removeLastTagSection:
  assumes inv: "storeInv (tags st)"
  shows "storeInv (tags (removeLastTagSection st))"
proof (cases "truthy (incompleteTag (tags st))")
  case True
  then show ?thesis
    using storeInv_Map_delete [OF inv] by (simp add: removeLastTagSection_def)
next
  case False
  let ?m = "tags st"
  from inv have wf: "wf_tags ?m"
    and fl: "list_all (\<lambda>e. snd e = None \<or> fst e \<in> set fieldNames) ?m"
    by (simp_all add: storeInv_def)
  from False wf have n: "incompleteTag ?m = None"
    by (simp add: incompleteTag_falsy wf_tags_def)
  then have v: "valued ?m" by (rule incompleteTag_None_valued)
  show ?thesis
  proof (cases ?m rule: rev_cases)
    case Nil
    then show ?thesis using inv
      by (simp add: removeLastTagSection_def lastTag_def incompleteTag_def)
  next
    case (snoc xs e)
    obtain k w where e: "e = (k, w)" by (cases e)
    from wf have kx: "k \<notin> set (Map_keys xs)" and kn: "k \<noteq> []"
      by (auto simp: snoc e wf_tags_def Map_keys_def)
    have t: "tags (removeLastTagSection st) = xs @ [(k, None)]"
      using n by (simp add: removeLastTagSection_def lastTag_def snoc e Map_set_last [OF kx])
    have "wf_tags (Map_set ?m k None)" using wf kn by (rule wf_tags_Map_set)
    then have "wf_tags (xs @ [(k, None)])" by (simp add: snoc e Map_set_last [OF kx])
    then show ?thesis
      using v fl by (simp add: t storeInv_def pendingLast_snoc snoc valued_def)
  qed
qed

lemma storeInv_handle:
  assumes inv: "storeInv (tags st)"
    and f: "truthy (incompleteTag (tags st)) \<Longrightarrow> the (incompleteTag (tags st)) \<in> set fieldNames"
  shows "storeInv (tags (handle fieldNames sugg ev st))"
proof (cases ev)
  case (KeyDown k)
  then show ?thesis
    using inv storeInv_selectSuggestion [OF inv f] storeInv_removeLastTagSection [OF inv]
    by (cases k) (auto simp: handleEnter_def)
next
  case (ClickChip k)
  then show ?thesis
    using inv storeInv_Map_delete [OF inv] by (auto simp: deleteTag_def)
qed (use inv storeInv_selectSuggestion [OF inv f] in \<open>auto simp: onTextInputChange_def\<close>)

lemma storeInv_dispatch:
  assumes "storeInv (tags st)"
  shows "storeInv (tags (dispatch data ev st))"
proof (cases "render data (tags st) (inputValue st)")
  case (Inl e)
  then show ?thesis using assms by (simp add: dispatch_def)
next
  case (Inr r)
  have "storeInv (tags (handle (fst r) (snd r) ev st))"
    using storeInv_handle [OF assms render_facts(2) [OF Inr]] render_facts(1) [OF Inr]
    by simp
  then show ?thesis by (simp add: dispatch_def Inr tags_afterRender)
qed

lemma reachable_storeInv: "reachable data st \<Longrightarrow> storeInv (tags st)"
proof (induction rule: reachable.induct)
  case mount
  show ?case
    by (simp add: tags_afterRender init_def storeInv_def wf_tags_def Map_keys_def
        pendingLast_def valued_def)
next
  case (event st ev)
  then show ?case by (simp add: storeInv_dispatch)
qed

lemma removeLastTagSection_cases:
  assumes "wf_tags (tags st)"
  shows "(incompleteTag (tags st) = Some k \<longrightarrow>
            removeLastTagSection st = st\<lparr>tags := filter (\<lambda>e. fst e \<noteq> k) (tags st)\<rparr>)
       \<and> (incompleteTag (tags st) = None \<and> tags st = m @ [(k', v)] \<longrightarrow>
            removeLastTagSection st = st\<lparr>tags := m @ [(k', None)]\<rparr>)
       \<and> (tags st = [] \<longrightarrow> removeLastTagSection st = st)"
proof (intro conjI impI)
  assume i: "incompleteTag (tags st) = Some k"
  then have "k \<in> set (Map_keys (tags st))" by (rule incompleteTag_Map_keys)
  with assms have "k \<noteq> []" by (auto simp: wf_tags_def)
  then show "removeLastTagSection st = st\<lparr>tags := filter (\<lambda>e. fst e \<noteq> k) (tags st)\<rparr>"
    by (simp add: removeLastTagSection_def i Map_delete_def)
next
  assume a: "incompleteTag (tags st) = None \<and> tags st = m @ [(k', v)]"
  with assms have "k' \<notin> set (Map_keys m)"
    by (simp add: wf_tags_def Map_keys_def)
  then have s: "Map_set (m @ [(k', v)]) k' None = m @ [(k', None)]"
    by (rule Map_set_last)
  from a have t: "tags st = m @ [(k', v)]" by blast
  from a have n: "incompleteTag (m @ [(k', v)]) = None" by (simp add: t)
  show "removeLastTagSection st = st\<lparr>tags := m @ [(k', None)]\<rparr>"
    by (simp add: removeLastTagSection_def lastTag_def t n s)
next
  assume "tags st = []"
  then show "removeLastTagSection st = st"
    by (simp add: removeLastTagSection_def lastTag_def incompleteTag_def)
qed


lemma valued_incompleteTag: "valued m \<Longrightarrow> incompleteTag m = None"
  by (induction m) (auto simp: valued_def incompleteTag_def)

lemma incompleteTag_snoc_None: "valued m \<Longrightarrow> incompleteTag (m @ [(k, None)]) = Some k"
  by (induction m) (auto simp: valued_def incompleteTag_def)

lemma Map_delete_last: "k \<notin> set (Map_keys m) \<Longrightarrow> Map_delete (m @ [(k, v)]) k = m"
  by (induction m) (auto simp: Map_delete_def Map_keys_def)

text \<open>
  C6. On a well-formed tag store, \<^verbatim>\<open>removeLastTagSection\<close> deletes the key of the
  incomplete tag when there is one, and otherwise resets the last entry, the most
  recently inserted key, to pending without deleting the key (nothing happens on an
  empty store). In every state of the component the incomplete tag is itself the last
  entry, so the last entry is always the one acted on: deleted when pending, reset
  to pending otherwise.
\<close>

theorem removeLastTagSection_lifo:
  "(wf_tags (tags st) \<longrightarrow>
      (incompleteTag (tags st) = Some k \<longrightarrow>
         removeLastTagSection st = st\<lparr>tags := filter (\<lambda>e. fst e \<noteq> k) (tags st)\<rparr>)
    \<and> (incompleteTag (tags st) = None \<and> tags st = m @ [(k', v)] \<longrightarrow>
         removeLastTagSection st = st\<lparr>tags := m @ [(k', None)]\<rparr>)
    \<and> (tags st = [] \<longrightarrow> removeLastTagSection st = st))
   \<and> (reachable data st \<and> tags st = m @ [(k', v)] \<longrightarrow>
         removeLastTagSection st = st\<lparr>tags := (if v = None then m else m @ [(k', None)])\<rparr>)"
proof (intro conjI impI)
  assume r: "reachable data st \<and> tags st = m @ [(k', v)]"
  then have t: "tags st = m @ [(k', v)]" by blast
  from r have "reachable data st" by blast
  then have inv: "storeInv (tags st)" by (rule reachable_storeInv)
  then have wf: "wf_tags (m @ [(k', v)])" and vm: "valued m"
    by (simp_all add: storeInv_def t pendingLast_snoc)
  from wf have kx: "k' \<notin> set (Map_keys m)" and kn: "k' \<noteq> []"
    by (auto simp: wf_tags_def Map_keys_def)
  show "removeLastTagSection st = st\<lparr>tags := (if v = None then m else m @ [(k', None)])\<rparr>"
  proof (cases v)
    case None
    have "incompleteTag (m @ [(k', None)]) = Some k'" using vm by (rule incompleteTag_snoc_None)
    then show ?thesis
      using kn by (simp add: removeLastTagSection_def t None Map_delete_last [OF kx])
  next
    case (Some w)
    have "valued (m @ [(k', Some w)])" using vm by (simp add: valued_def)
    then have "incompleteTag (tags st) = None"
      unfolding t Some by (rule valued_incompleteTag)
    then show ?thesis
      using removeLastTagSection_cases [of st k m k' v] wf by (simp add: t Some)
  qed
qed (use removeLastTagSection_cases [of st k m k' v] in \<open>blast+\<close>)

theorem removeLastTagSection_lifo_witness:
  "wf_tags [(''method'', Some ''GET''), (''path'', Some ''/a'')]
   \<and> removeLastTagSection
        \<lparr>inputValue = [], tags = [(''method'', Some ''GET''), (''path'', Some ''/a'')],
         showSuggestions = True, highlightedSuggestion = 0\<rparr>
      = \<lparr>inputValue = [], tags = [(''method'', Some ''GET''), (''path'', None)],
         showSuggestions = True, highlightedSuggestion = 0\<rparr>
   \<and> wf_tags [(''method'', Some ''GET''), (''path'', None)]
   \<and> removeLastTagSection
        \<lparr>inputValue = [], tags = [(''method'', Some ''GET''), (''path'', None)],
         showSuggestions = True, highlightedSuggestion = 0\<rparr>
      = \<lparr>inputValue = [], tags = [(''method'', Some ''GET'')],
         showSuggestions = True, highlightedSuggestion = 0\<rparr>
   \<and> reachable [log1] (dispatch [log1] (KeyDown Enter) (dispatch [log1] (Change ''me'') (afterRender [log1] init)))
   \<and> tags (dispatch [log1] (KeyDown Enter) (dispatch [log1] (Change ''me'') (afterRender [log1] init)))
       = [] @ [(''method'', None)]
   \<and> tags (removeLastTagSection
        (dispatch [log1] (KeyDown Enter) (dispatch [log1] (Change ''me'') (afterRender [log1] init)))) = []"
proof -
  let ?s1 = "\<lparr>inputValue = [], tags = [(''method'', Some ''GET''), (''path'', Some ''/a'')],
         showSuggestions = True, highlightedSuggestion = 0\<rparr>"
  let ?s2 = "\<lparr>inputValue = [], tags = [(''method'', Some ''GET''), (''path'', None)],
         showSuggestions = True, highlightedSuggestion = 0\<rparr>"
  let ?s3 = "dispatch [log1] (KeyDown Enter) (dispatch [log1] (Change ''me'') (afterRender [log1] init))"
  have w1: "wf_tags (tags ?s1)" by code_simp
  have w2: "wf_tags (tags ?s2)" by code_simp
  have i1: "incompleteTag (tags ?s1) = None" by code_simp
  have i2: "incompleteTag (tags ?s2) = Some ''path''" by code_simp
  have a: "removeLastTagSection ?s1 = ?s2"
    using removeLastTagSection_lifo [of ?s1 "''path''" "[(''method'', Some ''GET'')]" "''path''" "Some ''/a''"] w1 i1
    by simp
  have b: "removeLastTagSection ?s2 = ?s2\<lparr>tags := [(''method'', Some ''GET'')]\<rparr>"
    using removeLastTagSection_lifo [of ?s2 "''path''" "[]" "[]" None] w2 i2
    by simp
  have r: "reachable [log1] ?s3" by (intro reachable.intros)
  have t: "tags ?s3 = [] @ [(''method'', None)]" by code_simp
  have c: "tags (removeLastTagSection ?s3) = []"
    using removeLastTagSection_lifo [of ?s3 "[]" "[]" "''method''" None "[log1]"] r t
    by simp
  show ?thesis using w1 w2 a b r t c by simp
qed

section \<open>The filter evaluator on the stores of the component\<close>

lemma noEmptyValue_Map_set:
  "noEmptyValue m \<Longrightarrow> w \<noteq> Some [] \<Longrightarrow> noEmptyValue (Map_set m k w)"
  by (induction m k w rule: Map_set.induct) (auto simp: noEmptyValue_def)

lemma noEmptyValue_Map_delete: "noEmptyValue m \<Longrightarrow> noEmptyValue (Map_delete m k)"
  by (simp add: noEmptyValue_def Map_delete_def list_all_iff)

lemma noEmptyValue_selectSuggestion:
  assumes "noEmptyValue (tags st)"
  shows "noEmptyValue (tags (selectSuggestion keys sugg s st))"
proof (cases "truthy (selectedSuggestion sugg (highlightedSuggestion st) s)")
  case False
  then show ?thesis using assms by (simp add: selectSuggestion_def Let_def)
next
  case True
  then obtain c where c: "selectedSuggestion sugg (highlightedSuggestion st) s = Some c" "c \<noteq> []"
    by (cases "selectedSuggestion sugg (highlightedSuggestion st) s") auto
  then show ?thesis
    using assms by (simp add: selectSuggestion_def Let_def noEmptyValue_Map_set)
qed

lemma noEmptyValue_removeLastTagSection:
  assumes "noEmptyValue (tags st)"
  shows "noEmptyValue (tags (removeLastTagSection st))"
  using assms
  by (auto simp: removeLastTagSection_def noEmptyValue_Map_set noEmptyValue_Map_delete
      split: option.splits)

lemma noEmptyValue_handle:
  assumes "noEmptyValue (tags st)"
  shows "noEmptyValue (tags (handle keys sugg ev st))"
proof (cases ev)
  case (KeyDown k)
  then show ?thesis
    using assms noEmptyValue_selectSuggestion [OF assms]
      noEmptyValue_removeLastTagSection [OF assms]
    by (cases k) (auto simp: handleEnter_def)
qed (use assms noEmptyValue_selectSuggestion [OF assms] noEmptyValue_Map_delete [OF assms]
      in \<open>auto simp: onTextInputChange_def deleteTag_def\<close>)

lemma reachable_noEmptyValue: "reachable data st \<Longrightarrow> noEmptyValue (tags st)"
proof (induction rule: reachable.induct)
  case mount
  show ?case by (simp add: tags_afterRender init_def noEmptyValue_def)
next
  case (event st ev)
  then show ?case
    using noEmptyValue_handle [of st]
    by (simp add: dispatch_def tags_afterRender split: sum.splits)
qed

lemma storeInv_valuedKeysAreFields: "storeInv m \<Longrightarrow> valuedKeysAreFields m"
  by (cases "\<exists>e \<in> set m. truthy (snd e) \<and> fst e \<notin> set fieldNames")
     (auto simp: storeInv_def valuedKeysAreFields_def list_all_iff)

text \<open>
  C1. For every dataset, every input text and every tag store that the component
  holds (the store of a state reached from the mount by events, on any dataset), the
  filter evaluator returns, in the order of the dataset, exactly the records such that
  (1) every completed tag (its value is not null) has exactly the text of the record's
  field of that name, and (2) when the input text is non-empty and no unused field
  name starts with it, the record's path contains the input text, case-sensitively.
\<close>

theorem filter_accepts:
  assumes "reachable data0 st"
  shows "filterResults keys data (tags st) inp = Inr (filter (accepts keys (tags st) inp) data)"
proof -
  have "storeInv (tags st)" using assms by (rule reachable_storeInv)
  then have "valuedKeysAreFields (tags st)" by (rule storeInv_valuedKeysAreFields)
  moreover have "noEmptyValue (tags st)" using assms by (rule reachable_noEmptyValue)
  ultimately show ?thesis by (rule filterResults_spec)
qed

theorem filter_accepts_witness:
  "reachable [log1]
     (dispatch [log1] (KeyDown Enter) (dispatch [log1] (KeyDown Enter)
        (dispatch [log1] (Change ''me'') (afterRender [log1] init))))
   \<and> tags (dispatch [log1] (KeyDown Enter) (dispatch [log1] (KeyDown Enter)
        (dispatch [log1] (Change ''me'') (afterRender [log1] init))))
       = [(''method'', Some ''GET'')]
   \<and> filterResults (Object_keys log1) [log1, log2, log1] [(''method'', Some ''GET'')] ''/'' = Inr [log1, log1]
   \<and> filter (accepts (Object_keys log1) [(''method'', Some ''GET'')] ''/'') [log1, log2, log1] = [log1, log1]"
proof -
  let ?st = "dispatch [log1] (KeyDown Enter) (dispatch [log1] (KeyDown Enter)
        (dispatch [log1] (Change ''me'') (afterRender [log1] init)))"
  have r: "reachable [log1] ?st"
    by (intro reachable.intros)
  have t: "tags ?st = [(''method'', Some ''GET'')]"
    by code_simp
  have f: "filterResults (Object_keys log1) [log1, log2, log1] [(''method'', Some ''GET'')] ''/''
             = Inr [log1, log1]"
    by code_simp
  show ?thesis
    using r t f filter_accepts [OF r, of "Object_keys log1" "[log1, log2, log1]" "''/''"]
    by simp
qed

end
